theory Spec2Isabelle
  imports Main "HOL-Library.Monad_Syntax"
begin

section \<open>Characters\<close>

text \<open>
  A Python character (a \<^verbatim>\<open>str\<close> of length one) is modelled by its Unicode code point.
  Comparing two one-character strings compares their code points. \<^verbatim>\<open>ord\<close> reads the
  code point as an integer; \<^verbatim>\<open>chr\<close> raises \<^verbatim>\<open>ValueError\<close> outside
  \<^verbatim>\<open>range(0x110000)\<close>, which is the value \<open>None\<close> here.
\<close>

type_synonym codepoint = nat

definition py_ord :: "codepoint \<Rightarrow> int" where
  "py_ord c = int c"

definition py_chr :: "int \<Rightarrow> codepoint option" where
  "py_chr n = (if 0 \<le> n \<and> n < 1114112 then Some (nat n) else None)"

text \<open>The character literals of the source.\<close>

abbreviation c_a :: codepoint where "c_a \<equiv> 97"
abbreviation c_m :: codepoint where "c_m \<equiv> 109"
abbreviation c_n :: codepoint where "c_n \<equiv> 110"
abbreviation c_z :: codepoint where "c_z \<equiv> 122"
abbreviation c_A :: codepoint where "c_A \<equiv> 65"
abbreviation c_M :: codepoint where "c_M \<equiv> 77"
abbreviation c_N :: codepoint where "c_N \<equiv> 78"
abbreviation c_Z :: codepoint where "c_Z \<equiv> 90"

definition LOW_A :: int where
  "LOW_A = py_ord c_a"

definition UP_A :: int where
  "UP_A = py_ord c_A"

section \<open>The forward transform\<close>

text \<open>
  \<^verbatim>\<open>encrypt_character\<close>, branch by branch. Python's \<^verbatim>\<open>%\<close> with the positive
  modulus 26 is the floor modulus, as \<open>mod\<close> on \<open>int\<close> is.
\<close>

definition encrypt_character :: "codepoint \<Rightarrow> int \<Rightarrow> int \<Rightarrow> codepoint option" where
  "encrypt_character ch s1 s2 =
     (if c_a \<le> ch \<and> ch \<le> c_z then
        (if ch \<le> c_m then
           (let shift = s1 * s2
            in py_chr ((py_ord ch - LOW_A + shift) mod 26 + LOW_A))
         else
           (let shift = - (s1 + s2)
            in py_chr ((py_ord ch - LOW_A + shift) mod 26 + LOW_A)))
      else if c_A \<le> ch \<and> ch \<le> c_Z then
        (if ch \<le> c_M then
           (let shift = - s1
            in py_chr ((py_ord ch - UP_A + shift) mod 26 + UP_A))
         else
           (let shift = s2 * s2
            in py_chr ((py_ord ch - UP_A + shift) mod 26 + UP_A)))
      else Some ch)"

section \<open>The inverse with ambiguity\<close>

text \<open>
  \<^verbatim>\<open>decrypt_character_with_ambiguity\<close> is given in the pieces its body has: the two
  candidates, their two checks, and the chain of four returns that both cases share.
  The checks use Python's short-circuit \<^verbatim>\<open>and\<close>: the candidate is re-encrypted only when
  it lies in its half.
\<close>

definition lower_candidates :: "codepoint \<Rightarrow> int \<Rightarrow> int \<Rightarrow> (codepoint \<times> codepoint) option" where
  "lower_candidates ch s1 s2 =
     (let idx = py_ord ch - LOW_A;
          cand_first = (idx - (s1 * s2)) mod 26;
          cand_second = (idx + (s1 + s2)) mod 26
      in do {
        c1 \<leftarrow> py_chr (cand_first + LOW_A);
        c2 \<leftarrow> py_chr (cand_second + LOW_A);
        Some (c1, c2)
      })"

definition lower_checks :: "codepoint \<Rightarrow> int \<Rightarrow> int \<Rightarrow> codepoint \<Rightarrow> codepoint \<Rightarrow> (bool \<times> bool) option" where
  "lower_checks ch s1 s2 c1 c2 =
     do {
       ok1 \<leftarrow> (if c1 \<le> c_m
               then do { e \<leftarrow> encrypt_character c1 s1 s2; Some (e = ch) }
               else Some False);
       ok2 \<leftarrow> (if c2 \<ge> c_n
               then do { e \<leftarrow> encrypt_character c2 s1 s2; Some (e = ch) }
               else Some False);
       Some (ok1, ok2)
     }"

definition upper_candidates :: "codepoint \<Rightarrow> int \<Rightarrow> int \<Rightarrow> (codepoint \<times> codepoint) option" where
  "upper_candidates ch s1 s2 =
     (let idx = py_ord ch - UP_A;
          cand_first = (idx + s1) mod 26;
          cand_second = (idx - (s2 * s2)) mod 26
      in do {
        c1 \<leftarrow> py_chr (cand_first + UP_A);
        c2 \<leftarrow> py_chr (cand_second + UP_A);
        Some (c1, c2)
      })"

definition upper_checks :: "codepoint \<Rightarrow> int \<Rightarrow> int \<Rightarrow> codepoint \<Rightarrow> codepoint \<Rightarrow> (bool \<times> bool) option" where
  "upper_checks ch s1 s2 c1 c2 =
     do {
       ok1 \<leftarrow> (if c1 \<le> c_M
               then do { e \<leftarrow> encrypt_character c1 s1 s2; Some (e = ch) }
               else Some False);
       ok2 \<leftarrow> (if c2 \<ge> c_N
               then do { e \<leftarrow> encrypt_character c2 s1 s2; Some (e = ch) }
               else Some False);
       Some (ok1, ok2)
     }"

definition decide :: "codepoint \<Rightarrow> codepoint \<Rightarrow> codepoint \<Rightarrow> bool \<Rightarrow> bool \<Rightarrow> codepoint \<times> bool" where
  "decide ch c1 c2 ok1 ok2 =
     (if ok1 \<and> \<not> ok2 then (c1, False)
      else if ok2 \<and> \<not> ok1 then (c2, False)
      else if ok1 \<and> ok2 then (c1, True)
      else (ch, True))"

definition decrypt_character_with_ambiguity :: "codepoint \<Rightarrow> int \<Rightarrow> int \<Rightarrow> (codepoint \<times> bool) option" where
  "decrypt_character_with_ambiguity ch s1 s2 =
     (if c_a \<le> ch \<and> ch \<le> c_z then
        do {
          (c1, c2) \<leftarrow> lower_candidates ch s1 s2;
          (ok1, ok2) \<leftarrow> lower_checks ch s1 s2 c1 c2;
          Some (decide ch c1 c2 ok1 ok2)
        }
      else if c_A \<le> ch \<and> ch \<le> c_Z then
        do {
          (c1, c2) \<leftarrow> upper_candidates ch s1 s2;
          (ok1, ok2) \<leftarrow> upper_checks ch s1 s2 c1 c2;
          Some (decide ch c1 c2 ok1 ok2)
        }
      else Some (ch, False))"

section \<open>Decoding a stream\<close>

text \<open>
  \<^verbatim>\<open>decrypt_file\<close> on the text it reads: the loop over \<^verbatim>\<open>enumerate(cipher)\<close> carries
  the index, the characters written so far and the positions collected so far. The result
  is the text written and the list returned. \<^verbatim>\<open>str.isalpha\<close> is Python's own
  Unicode test, taken as a parameter.
\<close>

fun decrypt_loop ::
  "(codepoint \<Rightarrow> bool) \<Rightarrow> int \<Rightarrow> int \<Rightarrow> nat \<Rightarrow> codepoint list \<Rightarrow> codepoint list \<Rightarrow> nat list
    \<Rightarrow> (codepoint list \<times> nat list) option" where
  "decrypt_loop isalpha s1 s2 i [] out_chars ambiguous_positions =
     Some (out_chars, ambiguous_positions)"
| "decrypt_loop isalpha s1 s2 i (ch # rest) out_chars ambiguous_positions =
     do {
       (dec, amb) \<leftarrow> decrypt_character_with_ambiguity ch s1 s2;
       decrypt_loop isalpha s1 s2 (Suc i) rest (out_chars @ [dec])
         (if amb \<and> isalpha ch then ambiguous_positions @ [i] else ambiguous_positions)
     }"

definition decrypt_file ::
  "(codepoint \<Rightarrow> bool) \<Rightarrow> int \<Rightarrow> int \<Rightarrow> codepoint list \<Rightarrow> (codepoint list \<times> nat list) option" where
  "decrypt_file isalpha s1 s2 cipher = decrypt_loop isalpha s1 s2 0 cipher [] []"

section \<open>The reversibility advisory\<close>

text \<open>
  \<^verbatim>\<open>check_reversibility_for_text\<close> only prints. The value here is which of its four
  branches runs, with the condition the branch prints.
\<close>

datatype advisory = LowercaseOnly bool | UppercaseOnly bool | MixedCase | NoLetters

definition check_reversibility_for_text :: "codepoint list \<Rightarrow> int \<Rightarrow> int \<Rightarrow> advisory" where
  "check_reversibility_for_text txt s1 s2 =
     (let has_lower = list_ex (\<lambda>ch. c_a \<le> ch \<and> ch \<le> c_z) txt;
          has_upper = list_ex (\<lambda>ch. c_A \<le> ch \<and> ch \<le> c_Z) txt
      in if has_lower \<and> \<not> has_upper then
           (let cond = ((s1 * s2 + s1 + s2) mod 26 = 0) in LowercaseOnly cond)
         else if has_upper \<and> \<not> has_lower then
           (let cond = ((s1 + (s2 * s2)) mod 26 = 0) in UppercaseOnly cond)
         else if has_lower \<and> has_upper then MixedCase
         else NoLetters)"

section \<open>Character classes\<close>

definition lower_first :: "codepoint \<Rightarrow> bool" where
  "lower_first c = (c_a \<le> c \<and> c \<le> c_m)"

definition lower_second :: "codepoint \<Rightarrow> bool" where
  "lower_second c = (c_n \<le> c \<and> c \<le> c_z)"

definition upper_first :: "codepoint \<Rightarrow> bool" where
  "upper_first c = (c_A \<le> c \<and> c \<le> c_M)"

definition upper_second :: "codepoint \<Rightarrow> bool" where
  "upper_second c = (c_N \<le> c \<and> c \<le> c_Z)"

definition is_lower :: "codepoint \<Rightarrow> bool" where
  "is_lower c = (c_a \<le> c \<and> c \<le> c_z)"

definition is_upper :: "codepoint \<Rightarrow> bool" where
  "is_upper c = (c_A \<le> c \<and> c \<le> c_Z)"

definition alphabetic :: "codepoint \<Rightarrow> bool" where
  "alphabetic c = (is_lower c \<or> is_upper c)"

section \<open>Decoding what was encoded\<close>

text \<open>
  The pipeline of \<^verbatim>\<open>main\<close> at one character: \<^verbatim>\<open>encrypt_file\<close> writes
  \<^verbatim>\<open>encrypt_character(c, s1, s2)\<close> and \<^verbatim>\<open>decrypt_file\<close> decodes it.
\<close>

definition roundtrip :: "codepoint \<Rightarrow> int \<Rightarrow> int \<Rightarrow> (codepoint \<times> bool) option" where
  "roundtrip c s1 s2 =
     do { e \<leftarrow> encrypt_character c s1 s2; decrypt_character_with_ambiguity e s1 s2 }"

section \<open>The decoding algorithm as the specification words it\<close>

text \<open>
  The specification describes the inverse by two candidates and two verification outcomes:
  candidate 1 inverts the rule of the first half, candidate 2 the rule of the second half,
  and a candidate verifies when it lies in the half it assumes and encrypts to the input.
  These definitions follow that wording; they are compared with the code below.
\<close>

definition spec_c1 :: "codepoint \<Rightarrow> int \<Rightarrow> int \<Rightarrow> codepoint" where
  "spec_c1 ch s1 s2 =
     (if is_lower ch then nat ((py_ord ch - LOW_A - s1 * s2) mod 26 + LOW_A)
      else nat ((py_ord ch - UP_A + s1) mod 26 + UP_A))"

definition spec_c2 :: "codepoint \<Rightarrow> int \<Rightarrow> int \<Rightarrow> codepoint" where
  "spec_c2 ch s1 s2 =
     (if is_lower ch then nat ((py_ord ch - LOW_A + (s1 + s2)) mod 26 + LOW_A)
      else nat ((py_ord ch - UP_A - s2 * s2) mod 26 + UP_A))"

definition spec_ok1 :: "codepoint \<Rightarrow> int \<Rightarrow> int \<Rightarrow> bool" where
  "spec_ok1 ch s1 s2 =
     ((if is_lower ch then lower_first (spec_c1 ch s1 s2) else upper_first (spec_c1 ch s1 s2)) \<and>
      encrypt_character (spec_c1 ch s1 s2) s1 s2 = Some ch)"

definition spec_ok2 :: "codepoint \<Rightarrow> int \<Rightarrow> int \<Rightarrow> bool" where
  "spec_ok2 ch s1 s2 =
     ((if is_lower ch then lower_second (spec_c2 ch s1 s2) else upper_second (spec_c2 ch s1 s2)) \<and>
      encrypt_character (spec_c2 ch s1 s2) s1 s2 = Some ch)"

section \<open>Basic facts\<close>


lemma py_chr_lower [simp]: "py_chr (x mod 26 + 97) = Some (nat (x mod 26 + 97))"
  by (simp add: py_chr_def)

lemma py_chr_upper [simp]: "py_chr (x mod 26 + 65) = Some (nat (x mod 26 + 65))"
  by (simp add: py_chr_def)

lemma base_values [simp]: "LOW_A = 97" "UP_A = 65"
  by (simp_all add: LOW_A_def UP_A_def py_ord_def)


lemma enc_lower_first:
  "lower_first c \<Longrightarrow> encrypt_character c s1 s2 = Some (nat ((int c - 97 + s1 * s2) mod 26 + 97))"
  by (simp add: encrypt_character_def lower_first_def py_ord_def)

lemma enc_lower_second:
  "lower_second c \<Longrightarrow> encrypt_character c s1 s2 = Some (nat ((int c - 97 - (s1 + s2)) mod 26 + 97))"
  by (simp add: encrypt_character_def lower_second_def py_ord_def) (simp add: algebra_simps)

lemma enc_upper_first:
  "upper_first c \<Longrightarrow> encrypt_character c s1 s2 = Some (nat ((int c - 65 - s1) mod 26 + 65))"
  by (simp add: encrypt_character_def upper_first_def py_ord_def)

lemma enc_upper_second:
  "upper_second c \<Longrightarrow> encrypt_character c s1 s2 = Some (nat ((int c - 65 + s2 * s2) mod 26 + 65))"
  by (simp add: encrypt_character_def upper_second_def py_ord_def)

lemma enc_other:
  "\<not> alphabetic c \<Longrightarrow> encrypt_character c s1 s2 = Some c"
  by (auto simp add: encrypt_character_def alphabetic_def is_lower_def is_upper_def)

lemma lower_candidates_eq:
  "lower_candidates ch s1 s2 =
     Some (nat ((int ch - 97 - s1 * s2) mod 26 + 97), nat ((int ch - 97 + (s1 + s2)) mod 26 + 97))"
  by (simp add: lower_candidates_def py_ord_def Let_def)

lemma upper_candidates_eq:
  "upper_candidates ch s1 s2 =
     Some (nat ((int ch - 65 + s1) mod 26 + 65), nat ((int ch - 65 - s2 * s2) mod 26 + 65))"
  by (simp add: upper_candidates_def py_ord_def Let_def)

text \<open>Letters built from an index in \<open>0..25\<close>.\<close>

lemma letter_lower: "is_lower (nat (x mod 26 + 97))"
  using pos_mod_sign [of 26 x] pos_mod_bound [of 26 x] unfolding is_lower_def by linarith

lemma letter_upper: "is_upper (nat (x mod 26 + 65))"
  using pos_mod_sign [of 26 x] pos_mod_bound [of 26 x] unfolding is_upper_def by linarith

lemma lower_first_iff: "lower_first (nat (x mod 26 + 97)) \<longleftrightarrow> x mod 26 \<le> 12"
  using pos_mod_sign [of 26 x] pos_mod_bound [of 26 x] unfolding lower_first_def by linarith

lemma lower_second_iff: "lower_second (nat (x mod 26 + 97)) \<longleftrightarrow> 13 \<le> x mod 26"
  using pos_mod_sign [of 26 x] pos_mod_bound [of 26 x] unfolding lower_second_def by linarith

lemma upper_first_iff: "upper_first (nat (x mod 26 + 65)) \<longleftrightarrow> x mod 26 \<le> 12"
  using pos_mod_sign [of 26 x] pos_mod_bound [of 26 x] unfolding upper_first_def by linarith

lemma upper_second_iff: "upper_second (nat (x mod 26 + 65)) \<longleftrightarrow> 13 \<le> x mod 26"
  using pos_mod_sign [of 26 x] pos_mod_bound [of 26 x] unfolding upper_second_def by linarith

lemma idx_lower: "int (nat (x mod 26 + 97)) - 97 = x mod 26"
  using pos_mod_sign [of 26 x] pos_mod_bound [of 26 x] by linarith

lemma idx_upper: "int (nat (x mod 26 + 65)) - 65 = x mod 26"
  using pos_mod_sign [of 26 x] pos_mod_bound [of 26 x] by linarith

lemma lower_as_idx: "is_lower c \<Longrightarrow> nat ((int c - 97) mod 26 + 97) = c"
  unfolding is_lower_def by simp

lemma upper_as_idx: "is_upper c \<Longrightarrow> nat ((int c - 65) mod 26 + 65) = c"
  unfolding is_upper_def by simp

text \<open>Encrypting a letter given by its index.\<close>

lemma reenc_lower_first:
  "x mod 26 \<le> 12 \<Longrightarrow>
   encrypt_character (nat (x mod 26 + 97)) s1 s2 = Some (nat ((x + s1 * s2) mod 26 + 97))"
  by (simp add: enc_lower_first lower_first_iff idx_lower mod_simps)

lemma reenc_lower_second:
  "13 \<le> x mod 26 \<Longrightarrow>
   encrypt_character (nat (x mod 26 + 97)) s1 s2 = Some (nat ((x - (s1 + s2)) mod 26 + 97))"
  by (simp add: enc_lower_second lower_second_iff idx_lower mod_simps)

lemma reenc_upper_first:
  "x mod 26 \<le> 12 \<Longrightarrow>
   encrypt_character (nat (x mod 26 + 65)) s1 s2 = Some (nat ((x - s1) mod 26 + 65))"
  by (simp add: enc_upper_first upper_first_iff idx_upper mod_simps)

lemma reenc_upper_second:
  "13 \<le> x mod 26 \<Longrightarrow>
   encrypt_character (nat (x mod 26 + 65)) s1 s2 = Some (nat ((x + s2 * s2) mod 26 + 65))"
  by (simp add: enc_upper_second upper_second_iff idx_upper mod_simps)

lemma le_m_iff: "nat (x mod 26 + 97) \<le> c_m \<longleftrightarrow> x mod 26 \<le> 12"
  using pos_mod_sign [of 26 x] pos_mod_bound [of 26 x] by linarith
lemma ge_n_iff: "c_n \<le> nat (x mod 26 + 97) \<longleftrightarrow> 13 \<le> x mod 26"
  using pos_mod_sign [of 26 x] pos_mod_bound [of 26 x] by linarith
lemma le_M_iff: "nat (x mod 26 + 65) \<le> c_M \<longleftrightarrow> x mod 26 \<le> 12"
  using pos_mod_sign [of 26 x] pos_mod_bound [of 26 x] by linarith
lemma ge_N_iff: "c_N \<le> nat (x mod 26 + 65) \<longleftrightarrow> 13 \<le> x mod 26"
  using pos_mod_sign [of 26 x] pos_mod_bound [of 26 x] by linarith

lemma lower_checks_eq:
  assumes "is_lower ch"
  shows "lower_checks ch s1 s2 (nat ((int ch - 97 - s1 * s2) mod 26 + 97))
           (nat ((int ch - 97 + (s1 + s2)) mod 26 + 97)) =
         Some ((int ch - 97 - s1 * s2) mod 26 \<le> 12, 13 \<le> (int ch - 97 + (s1 + s2)) mod 26)"
  using lower_as_idx [OF assms]
  by (simp add: lower_checks_def le_m_iff ge_n_iff reenc_lower_first reenc_lower_second)

lemma upper_checks_eq:
  assumes "is_upper ch"
  shows "upper_checks ch s1 s2 (nat ((int ch - 65 + s1) mod 26 + 65))
           (nat ((int ch - 65 - s2 * s2) mod 26 + 65)) =
         Some ((int ch - 65 + s1) mod 26 \<le> 12, 13 \<le> (int ch - 65 - s2 * s2) mod 26)"
  using upper_as_idx [OF assms]
  by (simp add: upper_checks_def le_M_iff ge_N_iff reenc_upper_first reenc_upper_second)

section \<open>Closed forms of the inverse and of the round trip\<close>

lemma decrypt_lower:
  assumes "is_lower ch"
  shows "decrypt_character_with_ambiguity ch s1 s2 =
     Some (decide ch (nat ((int ch - 97 - s1 * s2) mod 26 + 97))
                     (nat ((int ch - 97 + (s1 + s2)) mod 26 + 97))
                     ((int ch - 97 - s1 * s2) mod 26 \<le> 12)
                     (13 \<le> (int ch - 97 + (s1 + s2)) mod 26))"
  using assms
  by (simp add: decrypt_character_with_ambiguity_def lower_candidates_eq lower_checks_eq is_lower_def)

lemma decrypt_upper:
  assumes "is_upper ch"
  shows "decrypt_character_with_ambiguity ch s1 s2 =
     Some (decide ch (nat ((int ch - 65 + s1) mod 26 + 65))
                     (nat ((int ch - 65 - s2 * s2) mod 26 + 65))
                     ((int ch - 65 + s1) mod 26 \<le> 12)
                     (13 \<le> (int ch - 65 - s2 * s2) mod 26))"
  using assms
  by (simp add: decrypt_character_with_ambiguity_def upper_candidates_eq upper_checks_eq is_upper_def is_lower_def)

lemma decrypt_other:
  "\<not> alphabetic ch \<Longrightarrow> decrypt_character_with_ambiguity ch s1 s2 = Some (ch, False)"
  by (auto simp add: decrypt_character_with_ambiguity_def alphabetic_def is_lower_def is_upper_def)

lemma roundtrip_lower_first:
  assumes "lower_first c"
  shows "roundtrip c s1 s2 = Some (c, 13 \<le> (int c - 97 + (s1 * s2 + s1 + s2)) mod 26)"
proof -
  have low: "is_lower c" using assms by (simp add: lower_first_def is_lower_def)
  have i: "(int c - 97) mod 26 \<le> 12"
    using assms unfolding lower_first_def by simp
  have x1: "((int c - 97 + s1 * s2) mod 26 - s1 * s2) mod 26 = (int c - 97) mod 26"
    by (simp add: mod_simps)
  have x2: "((int c - 97 + s1 * s2) mod 26 + (s1 + s2)) mod 26 = (int c - 97 + (s1 * s2 + s1 + s2)) mod 26"
  proof -
    have "((int c - 97 + s1 * s2) mod 26 + (s1 + s2)) mod 26 = (int c - 97 + s1 * s2 + (s1 + s2)) mod 26"
      by (rule mod_add_left_eq)
    also have "int c - 97 + s1 * s2 + (s1 + s2) = int c - 97 + (s1 * s2 + s1 + s2)"
      by simp
    finally show ?thesis .
  qed
  show ?thesis
    using i lower_as_idx [OF low]
    by (simp add: roundtrip_def enc_lower_first [OF assms] decrypt_lower letter_lower idx_lower x1 x2
        decide_def)
qed


lemma roundtrip_lower_second:
  assumes "lower_second c"
  shows "roundtrip c s1 s2 =
           Some (if (int c - 97 - (s1 * s2 + s1 + s2)) mod 26 \<le> 12
                 then (nat ((int c - 97 - (s1 * s2 + s1 + s2)) mod 26 + 97), True)
                 else (c, False))"
proof -
  have low: "is_lower c" using assms by (simp add: lower_second_def is_lower_def)
  have i: "13 \<le> (int c - 97) mod 26"
    using assms unfolding lower_second_def by simp
  have x1: "((int c - 97 - (s1 + s2)) mod 26 - s1 * s2) mod 26 = (int c - 97 - (s1 * s2 + s1 + s2)) mod 26"
  proof -
    have "((int c - 97 - (s1 + s2)) mod 26 - s1 * s2) mod 26 = (int c - 97 - (s1 + s2) - s1 * s2) mod 26"
      by (rule mod_diff_left_eq)
    also have "int c - 97 - (s1 + s2) - s1 * s2 = int c - 97 - (s1 * s2 + s1 + s2)"
      by simp
    finally show ?thesis .
  qed
  have x2: "((int c - 97 - (s1 + s2)) mod 26 + (s1 + s2)) mod 26 = (int c - 97) mod 26"
    by (simp add: mod_simps)
  show ?thesis
    using i lower_as_idx [OF low]
    by (simp add: roundtrip_def enc_lower_second [OF assms] decrypt_lower letter_lower idx_lower x1 x2
        decide_def)
qed

lemma roundtrip_upper_first:
  assumes "upper_first c"
  shows "roundtrip c s1 s2 = Some (c, 13 \<le> (int c - 65 - (s1 + s2 * s2)) mod 26)"
proof -
  have up: "is_upper c" using assms by (simp add: upper_first_def is_upper_def)
  have i: "(int c - 65) mod 26 \<le> 12"
    using assms unfolding upper_first_def by simp
  have x1: "((int c - 65 - s1) mod 26 + s1) mod 26 = (int c - 65) mod 26"
    by (simp add: mod_simps)
  have x2: "((int c - 65 - s1) mod 26 - s2 * s2) mod 26 = (int c - 65 - (s1 + s2 * s2)) mod 26"
  proof -
    have "((int c - 65 - s1) mod 26 - s2 * s2) mod 26 = (int c - 65 - s1 - s2 * s2) mod 26"
      by (rule mod_diff_left_eq)
    also have "int c - 65 - s1 - s2 * s2 = int c - 65 - (s1 + s2 * s2)"
      by simp
    finally show ?thesis .
  qed
  show ?thesis
    using i upper_as_idx [OF up]
    by (simp add: roundtrip_def enc_upper_first [OF assms] decrypt_upper letter_upper idx_upper x1 x2
        decide_def)
qed

lemma roundtrip_upper_second:
  assumes "upper_second c"
  shows "roundtrip c s1 s2 =
           Some (if (int c - 65 + (s1 + s2 * s2)) mod 26 \<le> 12
                 then (nat ((int c - 65 + (s1 + s2 * s2)) mod 26 + 65), True)
                 else (c, False))"
proof -
  have up: "is_upper c" using assms by (simp add: upper_second_def is_upper_def)
  have i: "13 \<le> (int c - 65) mod 26"
    using assms unfolding upper_second_def by simp
  have x1: "((int c - 65 + s2 * s2) mod 26 + s1) mod 26 = (int c - 65 + (s1 + s2 * s2)) mod 26"
  proof -
    have "((int c - 65 + s2 * s2) mod 26 + s1) mod 26 = (int c - 65 + s2 * s2 + s1) mod 26"
      by (rule mod_add_left_eq)
    also have "int c - 65 + s2 * s2 + s1 = int c - 65 + (s1 + s2 * s2)"
      by simp
    finally show ?thesis .
  qed
  have x2: "((int c - 65 + s2 * s2) mod 26 - s2 * s2) mod 26 = (int c - 65) mod 26"
    by (simp add: mod_simps)
  show ?thesis
    using i upper_as_idx [OF up]
    by (simp add: roundtrip_def enc_upper_second [OF assms] decrypt_upper letter_upper idx_upper x1 x2
        decide_def)
qed

section \<open>The code against the specification's wording\<close>

lemma lower_not_upper: "is_lower c \<Longrightarrow> \<not> is_upper c"
  by (simp add: is_lower_def is_upper_def)

lemma back_lower_first: "is_lower ch \<Longrightarrow> nat ((int ch - 97 - k + k) mod 26 + 97) = ch"
  using lower_as_idx [of ch] by simp

lemma back_lower_second: "is_lower ch \<Longrightarrow> nat ((int ch - 97 + k - k) mod 26 + 97) = ch"
  using lower_as_idx [of ch] by simp

lemma back_upper_first: "is_upper ch \<Longrightarrow> nat ((int ch - 65 + k - k) mod 26 + 65) = ch"
  using upper_as_idx [of ch] by simp

lemma back_upper_second: "is_upper ch \<Longrightarrow> nat ((int ch - 65 - k + k) mod 26 + 65) = ch"
  using upper_as_idx [of ch] by simp

lemma spec_ok1_lower:
  "is_lower ch \<Longrightarrow> spec_ok1 ch s1 s2 = ((int ch - 97 - s1 * s2) mod 26 \<le> 12)"
  by (auto simp add: spec_ok1_def spec_c1_def py_ord_def lower_first_iff reenc_lower_first
      back_lower_first lower_as_idx)

lemma spec_ok2_lower:
  "is_lower ch \<Longrightarrow> spec_ok2 ch s1 s2 = (13 \<le> (int ch - 97 + (s1 + s2)) mod 26)"
  by (auto simp add: spec_ok2_def spec_c2_def py_ord_def lower_second_iff reenc_lower_second
      back_lower_second lower_as_idx)

lemma spec_ok1_upper:
  "is_upper ch \<Longrightarrow> spec_ok1 ch s1 s2 = ((int ch - 65 + s1) mod 26 \<le> 12)"
  using lower_not_upper [of ch]
  by (auto simp add: spec_ok1_def spec_c1_def py_ord_def upper_first_iff reenc_upper_first
      back_upper_first upper_as_idx)

lemma spec_ok2_upper:
  "is_upper ch \<Longrightarrow> spec_ok2 ch s1 s2 = (13 \<le> (int ch - 65 - s2 * s2) mod 26)"
  using lower_not_upper [of ch]
  by (auto simp add: spec_ok2_def spec_c2_def py_ord_def upper_second_iff reenc_upper_second
      back_upper_second upper_as_idx)

lemma decrypt_as_spec:
  assumes "alphabetic ch"
  shows "decrypt_character_with_ambiguity ch s1 s2 =
           Some (decide ch (spec_c1 ch s1 s2) (spec_c2 ch s1 s2) (spec_ok1 ch s1 s2) (spec_ok2 ch s1 s2))"
proof (cases "is_lower ch")
  case True
  then show ?thesis
    by (simp add: decrypt_lower spec_ok1_lower spec_ok2_lower spec_c1_def spec_c2_def py_ord_def)
next
  case False
  with assms have up: "is_upper ch" by (simp add: alphabetic_def)
  with False show ?thesis
    by (simp add: decrypt_upper spec_ok1_upper spec_ok2_upper spec_c1_def spec_c2_def py_ord_def)
qed

section \<open>Which characters encrypt to a given letter\<close>

lemma encrypted_is_letter:
  assumes "encrypt_character c s1 s2 = Some ch" and "alphabetic ch"
  shows "alphabetic c"
  using assms enc_other [of c s1 s2] by auto

lemma classes: "alphabetic c \<longleftrightarrow> lower_first c \<or> lower_second c \<or> upper_first c \<or> upper_second c"
  unfolding alphabetic_def is_lower_def is_upper_def lower_first_def lower_second_def
    upper_first_def upper_second_def by auto

lemma preimage_lower:
  assumes "encrypt_character c s1 s2 = Some ch" and "is_lower ch"
  shows "(lower_first c \<and> (int ch - 97 - s1 * s2) mod 26 \<le> 12) \<or>
         (lower_second c \<and> 13 \<le> (int ch - 97 + (s1 + s2)) mod 26)"
proof -
  have al: "alphabetic c"
    using assms encrypted_is_letter [of c s1 s2 ch] by (simp add: alphabetic_def)
  then consider "lower_first c" | "lower_second c" | "upper_first c" | "upper_second c"
    using classes by blast
  then show ?thesis
  proof cases
    case 1
    then have ch: "ch = nat ((int c - 97 + s1 * s2) mod 26 + 97)"
      using assms(1) by (simp add: enc_lower_first)
    have "(int ch - 97 - s1 * s2) mod 26 = (int c - 97) mod 26"
      unfolding ch idx_lower by (simp add: mod_simps)
    with 1 show ?thesis by (simp add: lower_first_def)
  next
    case 2
    then have ch: "ch = nat ((int c - 97 - (s1 + s2)) mod 26 + 97)"
      using assms(1) by (simp add: enc_lower_second)
    have "(int ch - 97 + (s1 + s2)) mod 26 = (int c - 97) mod 26"
      unfolding ch idx_lower by (simp add: mod_simps)
    with 2 show ?thesis by (simp add: lower_second_def)
  next
    case 3
    then have "is_upper ch"
      using assms(1) letter_upper by (auto simp add: enc_upper_first)
    with assms(2) show ?thesis using lower_not_upper by blast
  next
    case 4
    then have "is_upper ch"
      using assms(1) letter_upper by (auto simp add: enc_upper_second)
    with assms(2) show ?thesis using lower_not_upper by blast
  qed
qed

lemma preimage_upper:
  assumes "encrypt_character c s1 s2 = Some ch" and "is_upper ch"
  shows "(upper_first c \<and> (int ch - 65 + s1) mod 26 \<le> 12) \<or>
         (upper_second c \<and> 13 \<le> (int ch - 65 - s2 * s2) mod 26)"
proof -
  have al: "alphabetic c"
    using assms encrypted_is_letter [of c s1 s2 ch] by (simp add: alphabetic_def)
  then consider "lower_first c" | "lower_second c" | "upper_first c" | "upper_second c"
    using classes by blast
  then show ?thesis
  proof cases
    case 3
    then have ch: "ch = nat ((int c - 65 - s1) mod 26 + 65)"
      using assms(1) by (simp add: enc_upper_first)
    have "(int ch - 65 + s1) mod 26 = (int c - 65) mod 26"
      unfolding ch idx_upper by (simp add: mod_simps)
    with 3 show ?thesis by (simp add: upper_first_def)
  next
    case 4
    then have ch: "ch = nat ((int c - 65 + s2 * s2) mod 26 + 65)"
      using assms(1) by (simp add: enc_upper_second)
    have "(int ch - 65 - s2 * s2) mod 26 = (int c - 65) mod 26"
      unfolding ch idx_upper by (simp add: mod_simps)
    with 4 show ?thesis by (simp add: upper_second_def)
  next
    case 1
    then have "is_lower ch"
      using assms(1) letter_lower by (auto simp add: enc_lower_first)
    with assms(2) show ?thesis using lower_not_upper by blast
  next
    case 2
    then have "is_lower ch"
      using assms(1) letter_lower by (auto simp add: enc_lower_second)
    with assms(2) show ?thesis using lower_not_upper by blast
  qed
qed

section \<open>When the round trip is exact for a whole case\<close>

lemma halves_disjoint:
  "lower_first c \<Longrightarrow> \<not> lower_second c" "upper_first c \<Longrightarrow> \<not> upper_second c"
  by (simp_all add: lower_first_def lower_second_def upper_first_def upper_second_def)

lemma shift_by_multiple: "k mod 26 = 0 \<Longrightarrow> (x + k) mod 26 = x mod (26::int)"
  by (metis add.right_neutral mod_add_right_eq)

lemma unshift_by_multiple: "k mod 26 = 0 \<Longrightarrow> (x - k) mod 26 = x mod (26::int)"
  by (metis diff_zero mod_diff_right_eq)

lemma no_shift_from_ends:
  "\<not> 13 \<le> k mod 26 \<Longrightarrow> \<not> 13 \<le> (12 + k) mod 26 \<Longrightarrow> k mod 26 = (0::int)"
  by presburger

lemma no_unshift_from_ends:
  "\<not> 13 \<le> (- k) mod 26 \<Longrightarrow> \<not> 13 \<le> (12 - k) mod 26 \<Longrightarrow> k mod 26 = (0::int)"
  by presburger

lemma lower_roundtrip_iff:
  "(\<forall>c. is_lower c \<longrightarrow> roundtrip c s1 s2 = Some (c, False)) \<longleftrightarrow>
   (s1 * s2 + s1 + s2) mod 26 = 0"
proof
  assume all: "\<forall>c. is_lower c \<longrightarrow> roundtrip c s1 s2 = Some (c, False)"
  have a: "lower_first 97" "is_lower 97" and m: "lower_first 109" "is_lower 109"
    by (simp_all add: lower_first_def is_lower_def)
  have "\<not> 13 \<le> (s1 * s2 + s1 + s2) mod 26"
    using all a roundtrip_lower_first [OF a(1), of s1 s2] by simp
  moreover have "\<not> 13 \<le> (12 + (s1 * s2 + s1 + s2)) mod 26"
    using all m roundtrip_lower_first [OF m(1), of s1 s2] by simp
  ultimately show "(s1 * s2 + s1 + s2) mod 26 = 0"
    by (rule no_shift_from_ends)
next
  assume k: "(s1 * s2 + s1 + s2) mod 26 = 0"
  show "\<forall>c. is_lower c \<longrightarrow> roundtrip c s1 s2 = Some (c, False)"
  proof (intro allI impI)
    fix c assume low: "is_lower c"
    show "roundtrip c s1 s2 = Some (c, False)"
    proof (cases "lower_first c")
      case True
      then have "(int c - 97) mod 26 \<le> 12" by (simp add: lower_first_def)
      then show ?thesis
        by (simp add: roundtrip_lower_first [OF True] shift_by_multiple [OF k])
    next
      case False
      with low have sec: "lower_second c"
        by (auto simp add: is_lower_def lower_first_def lower_second_def)
      then have "13 \<le> (int c - 97) mod 26" by (simp add: lower_second_def)
      then show ?thesis
        by (simp add: roundtrip_lower_second [OF sec] unshift_by_multiple [OF k])
    qed
  qed
qed

lemma upper_roundtrip_iff:
  "(\<forall>c. is_upper c \<longrightarrow> roundtrip c s1 s2 = Some (c, False)) \<longleftrightarrow>
   (s1 + s2 * s2) mod 26 = 0"
proof
  assume all: "\<forall>c. is_upper c \<longrightarrow> roundtrip c s1 s2 = Some (c, False)"
  have a: "upper_first 65" "is_upper 65" and m: "upper_first 77" "is_upper 77"
    by (simp_all add: upper_first_def is_upper_def)
  have "\<not> 13 \<le> (- (s1 + s2 * s2)) mod 26"
    using all a roundtrip_upper_first [OF a(1), of s1 s2] by simp
  moreover have "\<not> 13 \<le> (12 - (s1 + s2 * s2)) mod 26"
    using all m roundtrip_upper_first [OF m(1), of s1 s2] by simp
  ultimately show "(s1 + s2 * s2) mod 26 = 0"
    by (rule no_unshift_from_ends)
next
  assume k: "(s1 + s2 * s2) mod 26 = 0"
  show "\<forall>c. is_upper c \<longrightarrow> roundtrip c s1 s2 = Some (c, False)"
  proof (intro allI impI)
    fix c assume up: "is_upper c"
    show "roundtrip c s1 s2 = Some (c, False)"
    proof (cases "upper_first c")
      case True
      then have "(int c - 65) mod 26 \<le> 12" by (simp add: upper_first_def)
      then show ?thesis
        by (simp add: roundtrip_upper_first [OF True] unshift_by_multiple [OF k])
    next
      case False
      with up have sec: "upper_second c"
        by (auto simp add: is_upper_def upper_first_def upper_second_def)
      then have "13 \<le> (int c - 65) mod 26" by (simp add: upper_second_def)
      then show ?thesis
        by (simp add: roundtrip_upper_second [OF sec] shift_by_multiple [OF k])
    qed
  qed
qed

text \<open>The condition the advisory prints is the one that decides the round trip.\<close>

lemma advisory_lowercase:
  assumes "check_reversibility_for_text txt s1 s2 = LowercaseOnly cond"
  shows "cond \<longleftrightarrow> (\<forall>c. is_lower c \<longrightarrow> roundtrip c s1 s2 = Some (c, False))"
  using assms lower_roundtrip_iff [of s1 s2]
  by (auto simp add: check_reversibility_for_text_def Let_def split: if_splits)

lemma advisory_uppercase:
  assumes "check_reversibility_for_text txt s1 s2 = UppercaseOnly cond"
  shows "cond \<longleftrightarrow> (\<forall>c. is_upper c \<longrightarrow> roundtrip c s1 s2 = Some (c, False))"
  using assms upper_roundtrip_iff [of s1 s2]
  by (auto simp add: check_reversibility_for_text_def Let_def split: if_splits)

section \<open>Shift pairs that satisfy both conditions\<close>

lemma residue_cases:
  "0 \<le> b \<Longrightarrow> b < 26 \<Longrightarrow>
   b = 0 \<or> b = 1 \<or> b = 2 \<or> b = 3 \<or> b = 4 \<or> b = 5 \<or> b = 6 \<or> b = 7 \<or> b = 8 \<or>
   b = 9 \<or> b = 10 \<or> b = 11 \<or> b = 12 \<or> b = 13 \<or> b = 14 \<or> b = 15 \<or> b = 16 \<or>
   b = 17 \<or> b = 18 \<or> b = 19 \<or> b = 20 \<or> b = 21 \<or> b = 22 \<or> b = 23 \<or> b = 24 \<or>
   b = (25::int)"
  by arith

lemma cubic_residue:
  fixes r :: int
  assumes "r = 0 \<or> r = 1 \<or> r = 2 \<or> r = 3 \<or> r = 4 \<or> r = 5 \<or> r = 6 \<or> r = 7 \<or> r = 8 \<or>
   r = 9 \<or> r = 10 \<or> r = 11 \<or> r = 12 \<or> r = 13 \<or> r = 14 \<or> r = 15 \<or> r = 16 \<or>
   r = 17 \<or> r = 18 \<or> r = 19 \<or> r = 20 \<or> r = 21 \<or> r = 22 \<or> r = 23 \<or> r = 24 \<or>
   r = (25::int)" and "(r * (r * r + r - 1)) mod 26 = 0"
  shows "r = 0"
  using assms
  by (elim disjE; simp)

lemma cubic_mod:
  fixes b :: int
  shows "((b mod 26) * ((b mod 26) * (b mod 26) + b mod 26 - 1)) mod 26 = (b * (b * b + b - 1)) mod 26"
  by (intro mod_mult_cong mod_add_cong mod_diff_cong) simp_all

lemma cubic_root:
  fixes b :: int
  assumes "(b * (b * b + b - 1)) mod 26 = 0"
  shows "b mod 26 = 0"
proof -
  have "0 \<le> b mod 26" and "b mod 26 < 26" by simp_all
  then have c: "b mod 26 = 0 \<or> b mod 26 = 1 \<or> b mod 26 = 2 \<or> b mod 26 = 3 \<or> b mod 26 = 4 \<or>
    b mod 26 = 5 \<or> b mod 26 = 6 \<or> b mod 26 = 7 \<or> b mod 26 = 8 \<or> b mod 26 = 9 \<or>
    b mod 26 = 10 \<or> b mod 26 = 11 \<or> b mod 26 = 12 \<or> b mod 26 = 13 \<or> b mod 26 = 14 \<or>
    b mod 26 = 15 \<or> b mod 26 = 16 \<or> b mod 26 = 17 \<or> b mod 26 = 18 \<or> b mod 26 = 19 \<or>
    b mod 26 = 20 \<or> b mod 26 = 21 \<or> b mod 26 = 22 \<or> b mod 26 = 23 \<or> b mod 26 = 24 \<or>
    b mod 26 = 25"
    by (rule residue_cases)
  have "((b mod 26) * ((b mod 26) * (b mod 26) + b mod 26 - 1)) mod 26 = 0"
    unfolding cubic_mod by (rule assms)
  with c show ?thesis by (rule cubic_residue)
qed

lemma both_conditions:
  fixes s1 s2 :: int
  assumes "(s1 * s2 + s1 + s2) mod 26 = 0" and "(s1 + s2 * s2) mod 26 = 0"
  shows "s1 mod 26 = 0 \<and> s2 mod 26 = 0"
proof -
  have d1: "26 dvd s1 * s2 + s1 + s2" and d2: "26 dvd s1 + s2 * s2"
    using assms by (simp_all add: mod_eq_0_iff_dvd)
  have e: "s2 * (s2 * s2 + s2 - 1) = (s1 + s2 * s2) * (s2 + 1) - (s1 * s2 + s1 + s2)"
    by (simp add: algebra_simps)
  have "26 dvd (s1 + s2 * s2) * (s2 + 1)"
    using d2 by (rule dvd_mult2)
  then have "26 dvd (s1 + s2 * s2) * (s2 + 1) - (s1 * s2 + s1 + s2)"
    using d1 by (rule dvd_diff)
  then have "26 dvd s2 * (s2 * s2 + s2 - 1)"
    unfolding e .
  then have "(s2 * (s2 * s2 + s2 - 1)) mod 26 = 0"
    by (simp only: mod_eq_0_iff_dvd)
  then have b: "s2 mod 26 = 0"
    by (rule cubic_root)
  then have "26 dvd s2" by (simp only: mod_eq_0_iff_dvd)
  then have "26 dvd s2 * s2" by (rule dvd_mult)
  with d2 have "26 dvd s1" by (simp only: dvd_add_left_iff)
  then have "s1 mod 26 = 0" by (simp only: mod_eq_0_iff_dvd)
  with b show ?thesis by simp
qed

lemma multiples_of_26:
  fixes s1 s2 :: int
  assumes "s1 mod 26 = 0" and "s2 mod 26 = 0"
  shows "(s1 * s2) mod 26 = 0" "(s1 + s2) mod 26 = 0" "(s2 * s2) mod 26 = 0"
proof -
  have d: "26 dvd s1" "26 dvd s2"
    using assms by (simp_all only: mod_eq_0_iff_dvd)
  have "26 dvd s1 * s2" using d(2) by (rule dvd_mult)
  then show "(s1 * s2) mod 26 = 0" by (simp only: mod_eq_0_iff_dvd)
  have "26 dvd s1 + s2" using d by (rule dvd_add)
  then show "(s1 + s2) mod 26 = 0" by (simp only: mod_eq_0_iff_dvd)
  have "26 dvd s2 * s2" using d(2) by (rule dvd_mult)
  then show "(s2 * s2) mod 26 = 0" by (simp only: mod_eq_0_iff_dvd)
qed

lemma encrypt_multiples_of_26:
  assumes "s1 mod 26 = 0" and "s2 mod 26 = 0"
  shows "encrypt_character c s1 s2 = Some c"
proof (cases "alphabetic c")
  case False
  then show ?thesis by (simp add: enc_other)
next
  case True
  note m = multiples_of_26 [OF assms]
  from True consider "lower_first c" | "lower_second c" | "upper_first c" | "upper_second c"
    using classes by blast
  then show ?thesis
  proof cases
    case 1
    then have "is_lower c" by (simp add: lower_first_def is_lower_def)
    with 1 show ?thesis
      by (simp add: enc_lower_first shift_by_multiple [OF m(1)] lower_as_idx)
  next
    case 2
    then have "is_lower c" by (simp add: lower_second_def is_lower_def)
    with 2 show ?thesis
      by (simp add: enc_lower_second unshift_by_multiple [OF m(2)] lower_as_idx)
  next
    case 3
    then have "is_upper c" by (simp add: upper_first_def is_upper_def)
    with 3 show ?thesis
      by (simp add: enc_upper_first unshift_by_multiple [OF assms(1)] upper_as_idx)
  next
    case 4
    then have "is_upper c" by (simp add: upper_second_def is_upper_def)
    with 4 show ?thesis
      by (simp add: enc_upper_second shift_by_multiple [OF m(3)] upper_as_idx)
  qed
qed

section \<open>The decoding loop\<close>

lemma decrypt_total:
  "\<exists>d amb. decrypt_character_with_ambiguity ch s1 s2 = Some (d, amb) \<and> (amb \<longrightarrow> alphabetic ch)"
proof (cases "is_lower ch")
  case True
  then show ?thesis
    by (simp add: decrypt_lower alphabetic_def)
next
  case False
  show ?thesis
  proof (cases "is_upper ch")
    case True
    then show ?thesis
      by (simp add: decrypt_upper alphabetic_def)
  next
    case no: False
    with False show ?thesis by (auto simp add: decrypt_other alphabetic_def)
  qed
qed

lemma decrypt_loop_positions:
  "\<exists>out pos. decrypt_loop isalpha s1 s2 i cs out0 pos0 = Some (out, pos0 @ pos) \<and>
     sorted_wrt (<) pos \<and>
     (\<forall>j\<in>set pos. i \<le> j \<and> j < i + length cs \<and>
        alphabetic (cs ! (j - i)) \<and> isalpha (cs ! (j - i)))"
proof (induction cs arbitrary: i out0 pos0)
  case Nil
  then show ?case by simp
next
  case (Cons ch rest)
  obtain d amb where d: "decrypt_character_with_ambiguity ch s1 s2 = Some (d, amb)"
    and amb: "amb \<longrightarrow> alphabetic ch"
    using decrypt_total by blast
  let ?pos1 = "if amb \<and> isalpha ch then pos0 @ [i] else pos0"
  obtain out pos where r: "decrypt_loop isalpha s1 s2 (Suc i) rest (out0 @ [d]) ?pos1 = Some (out, ?pos1 @ pos)"
    and s: "sorted_wrt (<) pos"
    and p: "\<forall>j\<in>set pos. Suc i \<le> j \<and> j < Suc i + length rest \<and>
        alphabetic (rest ! (j - Suc i)) \<and> isalpha (rest ! (j - Suc i))"
    using Cons.IH [of "Suc i" "out0 @ [d]" ?pos1] by blast
  have tail: "\<forall>j\<in>set pos. i \<le> j \<and> j < i + length (ch # rest) \<and>
        alphabetic ((ch # rest) ! (j - i)) \<and> isalpha ((ch # rest) ! (j - i))"
  proof
    fix j assume "j \<in> set pos"
    with p have j: "Suc i \<le> j" "j < Suc i + length rest"
      "alphabetic (rest ! (j - Suc i))" "isalpha (rest ! (j - Suc i))"
      by blast+
    from j(1) have "j - i = Suc (j - Suc i)" by simp
    with j show "i \<le> j \<and> j < i + length (ch # rest) \<and>
        alphabetic ((ch # rest) ! (j - i)) \<and> isalpha ((ch # rest) ! (j - i))"
      by simp
  qed
  show ?case
  proof (cases "amb \<and> isalpha ch")
    case True
    have "decrypt_loop isalpha s1 s2 i (ch # rest) out0 pos0 = Some (out, pos0 @ (i # pos))"
      using d r True by auto
    moreover have "sorted_wrt (<) (i # pos)"
      using s p by auto
    moreover have "\<forall>j\<in>set (i # pos). i \<le> j \<and> j < i + length (ch # rest) \<and>
        alphabetic ((ch # rest) ! (j - i)) \<and> isalpha ((ch # rest) ! (j - i))"
      using tail True amb by simp
    ultimately show ?thesis by blast
  next
    case False
    have "decrypt_loop isalpha s1 s2 i (ch # rest) out0 pos0 = Some (out, pos0 @ pos)"
      using d r False by auto
    with s tail show ?thesis by blast
  qed
qed

section \<open>The claims\<close>

text \<open>
  C1. \<^verbatim>\<open>encrypt_character\<close> follows the rule table, with the result in the letter
  range of the same case: a lowercase letter in a..m goes to the letter of index
  \<open>(idx + s1 * s2) mod 26\<close>, one in n..z to index \<open>(idx - (s1 + s2)) mod 26\<close>, an uppercase
  letter in A..M to index \<open>(idx - s1) mod 26\<close>, one in N..Z to index
  \<open>(idx + s2 * s2) mod 26\<close>, and any other character is returned unchanged. With the
  shifts 3 and 4, H gives E, e gives q and l gives x.
\<close>

theorem encrypt_character_rule_table:
  "(lower_first c \<longrightarrow>
      (\<exists>r. encrypt_character c s1 s2 = Some r \<and> is_lower r \<and>
           py_ord r - LOW_A = (py_ord c - LOW_A + s1 * s2) mod 26)) \<and>
   (lower_second c \<longrightarrow>
      (\<exists>r. encrypt_character c s1 s2 = Some r \<and> is_lower r \<and>
           py_ord r - LOW_A = (py_ord c - LOW_A - (s1 + s2)) mod 26)) \<and>
   (upper_first c \<longrightarrow>
      (\<exists>r. encrypt_character c s1 s2 = Some r \<and> is_upper r \<and>
           py_ord r - UP_A = (py_ord c - UP_A - s1) mod 26)) \<and>
   (upper_second c \<longrightarrow>
      (\<exists>r. encrypt_character c s1 s2 = Some r \<and> is_upper r \<and>
           py_ord r - UP_A = (py_ord c - UP_A + s2 * s2) mod 26)) \<and>
   (\<not> alphabetic c \<longrightarrow> encrypt_character c s1 s2 = Some c) \<and>
   encrypt_character 72 3 4 = Some 69 \<and>
   encrypt_character 101 3 4 = Some 113 \<and>
   encrypt_character 108 3 4 = Some 120"
proof -
  have a: "lower_first c \<longrightarrow>
      (\<exists>r. encrypt_character c s1 s2 = Some r \<and> is_lower r \<and>
           py_ord r - LOW_A = (py_ord c - LOW_A + s1 * s2) mod 26)"
    by (simp add: enc_lower_first letter_lower py_ord_def idx_lower)
  have b: "lower_second c \<longrightarrow>
      (\<exists>r. encrypt_character c s1 s2 = Some r \<and> is_lower r \<and>
           py_ord r - LOW_A = (py_ord c - LOW_A - (s1 + s2)) mod 26)"
    by (simp add: enc_lower_second letter_lower py_ord_def idx_lower)
  have c: "upper_first c \<longrightarrow>
      (\<exists>r. encrypt_character c s1 s2 = Some r \<and> is_upper r \<and>
           py_ord r - UP_A = (py_ord c - UP_A - s1) mod 26)"
    by (simp add: enc_upper_first letter_upper py_ord_def idx_upper)
  have d: "upper_second c \<longrightarrow>
      (\<exists>r. encrypt_character c s1 s2 = Some r \<and> is_upper r \<and>
           py_ord r - UP_A = (py_ord c - UP_A + s2 * s2) mod 26)"
    by (simp add: enc_upper_second letter_upper py_ord_def idx_upper)
  have e: "\<not> alphabetic c \<longrightarrow> encrypt_character c s1 s2 = Some c"
    by (simp add: enc_other)
  have f: "encrypt_character 72 3 4 = Some 69"
    by (simp add: encrypt_character_def py_ord_def py_chr_def)
  have g: "encrypt_character 101 3 4 = Some 113"
    by (simp add: encrypt_character_def py_ord_def py_chr_def)
  have h: "encrypt_character 108 3 4 = Some 120"
    by (simp add: encrypt_character_def py_ord_def py_chr_def)
  from a b c d e f g h show ?thesis by blast
qed

theorem encrypt_character_rule_table_witness:
  "lower_first 108 \<and>
   (\<exists>r. encrypt_character 108 3 4 = Some r \<and> is_lower r \<and> py_ord r - LOW_A = 23) \<and>
   lower_second 120 \<and>
   (\<exists>r. encrypt_character 120 3 4 = Some r \<and> is_lower r \<and> py_ord r - LOW_A = 16) \<and>
   upper_first 72 \<and>
   (\<exists>r. encrypt_character 72 3 4 = Some r \<and> is_upper r \<and> py_ord r - UP_A = 4) \<and>
   upper_second 87 \<and>
   (\<exists>r. encrypt_character 87 3 4 = Some r \<and> is_upper r \<and> py_ord r - UP_A = 12) \<and>
   \<not> alphabetic 44 \<and> encrypt_character 44 3 4 = Some 44"
proof -
  have l1: "lower_first 108" and l2: "lower_second 120"
    and u1: "upper_first 72" and u2: "upper_second 87" and o: "\<not> alphabetic 44"
    by (simp_all add: lower_first_def lower_second_def upper_first_def upper_second_def
        alphabetic_def is_lower_def is_upper_def)
  have "\<exists>r. encrypt_character 108 3 4 = Some r \<and> is_lower r \<and> py_ord r - LOW_A = 23"
    using encrypt_character_rule_table [of 108 3 4] l1 by (simp add: py_ord_def)
  moreover have "\<exists>r. encrypt_character 120 3 4 = Some r \<and> is_lower r \<and> py_ord r - LOW_A = 16"
    using encrypt_character_rule_table [of 120 3 4] l2 by (simp add: py_ord_def)
  moreover have "\<exists>r. encrypt_character 72 3 4 = Some r \<and> is_upper r \<and> py_ord r - UP_A = 4"
    using encrypt_character_rule_table [of 72 3 4] u1 by (simp add: py_ord_def)
  moreover have "\<exists>r. encrypt_character 87 3 4 = Some r \<and> is_upper r \<and> py_ord r - UP_A = 12"
    using encrypt_character_rule_table [of 87 3 4] u2 by (simp add: py_ord_def)
  moreover have "encrypt_character 44 3 4 = Some 44"
    using encrypt_character_rule_table [of 44 3 4] o by simp
  ultimately show ?thesis using l1 l2 u1 u2 o by simp
qed

text \<open>
  C2. For an alphabetic character, \<^verbatim>\<open>decrypt_character_with_ambiguity\<close> returns what
  the decision table says of the two candidates and their verification outcomes: candidate 1
  unflagged when only it verifies, candidate 2 unflagged when only it verifies, candidate 1
  flagged when both verify, and the input character flagged when neither does.
\<close>

theorem decrypt_decision_table:
  assumes "alphabetic ch"
  shows "(spec_ok1 ch s1 s2 \<and> \<not> spec_ok2 ch s1 s2 \<longrightarrow>
            decrypt_character_with_ambiguity ch s1 s2 = Some (spec_c1 ch s1 s2, False)) \<and>
         (spec_ok2 ch s1 s2 \<and> \<not> spec_ok1 ch s1 s2 \<longrightarrow>
            decrypt_character_with_ambiguity ch s1 s2 = Some (spec_c2 ch s1 s2, False)) \<and>
         (spec_ok1 ch s1 s2 \<and> spec_ok2 ch s1 s2 \<longrightarrow>
            decrypt_character_with_ambiguity ch s1 s2 = Some (spec_c1 ch s1 s2, True)) \<and>
         (\<not> spec_ok1 ch s1 s2 \<and> \<not> spec_ok2 ch s1 s2 \<longrightarrow>
            decrypt_character_with_ambiguity ch s1 s2 = Some (ch, True))"
  by (simp add: decrypt_as_spec [OF assms] decide_def)

theorem decrypt_decision_table_witness:
  "alphabetic 120 \<and> spec_ok1 120 3 4 \<and> \<not> spec_ok2 120 3 4 \<and>
     decrypt_character_with_ambiguity 120 3 4 = Some (108, False) \<and>
   alphabetic 76 \<and> spec_ok2 76 3 4 \<and> \<not> spec_ok1 76 3 4 \<and>
     decrypt_character_with_ambiguity 76 3 4 = Some (86, False) \<and>
   alphabetic 113 \<and> spec_ok1 113 3 4 \<and> spec_ok2 113 3 4 \<and>
     decrypt_character_with_ambiguity 113 3 4 = Some (101, True) \<and>
   alphabetic 97 \<and> \<not> spec_ok1 97 3 4 \<and> \<not> spec_ok2 97 3 4 \<and>
     decrypt_character_with_ambiguity 97 3 4 = Some (97, True)"
proof -
  have al: "alphabetic 120" "alphabetic 76" "alphabetic 113" "alphabetic 97"
    by (simp_all add: alphabetic_def is_lower_def is_upper_def)
  have low: "is_lower 120" "is_lower 113" "is_lower 97" and up: "is_upper 76"
    by (simp_all add: is_lower_def is_upper_def)
  have k1: "spec_ok1 120 3 4" "\<not> spec_ok2 120 3 4" "spec_c1 120 3 4 = 108"
    by (simp_all add: spec_ok1_lower spec_ok2_lower low spec_c1_def py_ord_def)
  have k2: "spec_ok2 76 3 4" "\<not> spec_ok1 76 3 4" "spec_c2 76 3 4 = 86"
    using lower_not_upper [of 76]
    by (simp_all add: spec_ok1_upper spec_ok2_upper up spec_c2_def py_ord_def is_lower_def)
  have k3: "spec_ok1 113 3 4" "spec_ok2 113 3 4" "spec_c1 113 3 4 = 101"
    by (simp_all add: spec_ok1_lower spec_ok2_lower low spec_c1_def py_ord_def)
  have k4: "\<not> spec_ok1 97 3 4" "\<not> spec_ok2 97 3 4"
    by (simp_all add: spec_ok1_lower spec_ok2_lower low)
  have "decrypt_character_with_ambiguity 120 3 4 = Some (108, False)"
    using decrypt_decision_table [OF al(1), of 3 4] k1 by simp
  moreover have "decrypt_character_with_ambiguity 76 3 4 = Some (86, False)"
    using decrypt_decision_table [OF al(2), of 3 4] k2 by simp
  moreover have "decrypt_character_with_ambiguity 113 3 4 = Some (101, True)"
    using decrypt_decision_table [OF al(3), of 3 4] k3 by simp
  moreover have "decrypt_character_with_ambiguity 97 3 4 = Some (97, True)"
    using decrypt_decision_table [OF al(4), of 3 4] k4 by simp
  ultimately show ?thesis using al k1 k2 k3 k4 by simp
qed

text \<open>
  C10. In \<^verbatim>\<open>decrypt_character_with_ambiguity\<close> the re-encryption of a candidate adds
  nothing to the test of its half: for an alphabetic input, the first check holds exactly
  when the first candidate lies in the first half of the input's case, the second exactly
  when the second candidate lies in the second half, and a candidate in its half always
  encrypts to the input.
\<close>

theorem verification_by_half_alone:
  "(is_lower ch \<longrightarrow>
      (\<exists>c1 c2. lower_candidates ch s1 s2 = Some (c1, c2) \<and>
         lower_checks ch s1 s2 c1 c2 = Some (lower_first c1, lower_second c2) \<and>
         (lower_first c1 \<longrightarrow> encrypt_character c1 s1 s2 = Some ch) \<and>
         (lower_second c2 \<longrightarrow> encrypt_character c2 s1 s2 = Some ch))) \<and>
   (is_upper ch \<longrightarrow>
      (\<exists>c1 c2. upper_candidates ch s1 s2 = Some (c1, c2) \<and>
         upper_checks ch s1 s2 c1 c2 = Some (upper_first c1, upper_second c2) \<and>
         (upper_first c1 \<longrightarrow> encrypt_character c1 s1 s2 = Some ch) \<and>
         (upper_second c2 \<longrightarrow> encrypt_character c2 s1 s2 = Some ch)))"
proof (intro conjI impI)
  assume low: "is_lower ch"
  show "\<exists>c1 c2. lower_candidates ch s1 s2 = Some (c1, c2) \<and>
         lower_checks ch s1 s2 c1 c2 = Some (lower_first c1, lower_second c2) \<and>
         (lower_first c1 \<longrightarrow> encrypt_character c1 s1 s2 = Some ch) \<and>
         (lower_second c2 \<longrightarrow> encrypt_character c2 s1 s2 = Some ch)"
    using low
    by (simp add: lower_candidates_eq lower_checks_eq lower_first_iff lower_second_iff
        reenc_lower_first reenc_lower_second back_lower_first back_lower_second lower_as_idx)
next
  assume up: "is_upper ch"
  show "\<exists>c1 c2. upper_candidates ch s1 s2 = Some (c1, c2) \<and>
         upper_checks ch s1 s2 c1 c2 = Some (upper_first c1, upper_second c2) \<and>
         (upper_first c1 \<longrightarrow> encrypt_character c1 s1 s2 = Some ch) \<and>
         (upper_second c2 \<longrightarrow> encrypt_character c2 s1 s2 = Some ch)"
    using up
    by (simp add: upper_candidates_eq upper_checks_eq upper_first_iff upper_second_iff
        reenc_upper_first reenc_upper_second back_upper_first back_upper_second upper_as_idx)
qed

theorem verification_by_half_alone_witness:
  "is_lower 113 \<and> lower_candidates 113 3 4 = Some (101, 120) \<and>
   lower_checks 113 3 4 101 120 = Some (True, True) \<and>
   encrypt_character 101 3 4 = Some 113 \<and> encrypt_character 120 3 4 = Some 113 \<and>
   is_upper 76 \<and> upper_candidates 76 3 4 = Some (79, 86) \<and>
   upper_checks 76 3 4 79 86 = Some (False, True) \<and>
   encrypt_character 86 3 4 = Some 76"
proof -
  have low: "is_lower 113" and up: "is_upper 76"
    by (simp_all add: is_lower_def is_upper_def)
  have c: "lower_candidates 113 3 4 = Some (101, 120)" "upper_candidates 76 3 4 = Some (79, 86)"
    by (simp_all add: lower_candidates_eq upper_candidates_eq)
  have h: "lower_first 101" "lower_second 120" "\<not> upper_first 79" "upper_second 86"
    by (simp_all add: lower_first_def lower_second_def upper_first_def upper_second_def)
  have "lower_checks 113 3 4 101 120 = Some (True, True) \<and>
        encrypt_character 101 3 4 = Some 113 \<and> encrypt_character 120 3 4 = Some 113"
    using verification_by_half_alone [of 113 3 4] low c h by simp
  moreover have "upper_checks 76 3 4 79 86 = Some (False, True) \<and>
        encrypt_character 86 3 4 = Some 76"
    using verification_by_half_alone [of 76 3 4] up c h by simp
  ultimately show ?thesis using low up c by simp
qed

text \<open>
  C6. The claim: for an alphabetic input at least one of the two checks succeeds, so the last
  return of each case is never reached. It fails: with the shifts 3 and 4 no letter encrypts
  to a, both checks fail on a, and a is returned flagged.
\<close>

theorem fallback_reached_counterexample:
  "alphabetic 97 \<and> lower_candidates 97 3 4 = Some (111, 104) \<and>
   lower_checks 97 3 4 111 104 = Some (False, False) \<and>
   decrypt_character_with_ambiguity 97 3 4 = Some (97, True)"
proof -
  have low: "is_lower 97" by (simp add: is_lower_def)
  have "lower_checks 97 3 4 111 104 = Some (False, False)"
    using lower_checks_eq [OF low, of 3 4] by simp
  moreover have "decrypt_character_with_ambiguity 97 3 4 = Some (97, True)"
    by (simp add: decrypt_lower [OF low] decide_def)
  ultimately show ?thesis
    using low by (simp add: alphabetic_def lower_candidates_eq)
qed

text \<open>
  C6, as amended: an alphabetic character that some character encrypts to passes at least
  one of its two checks, so decoding it returns at one of the first three returns of the
  chain and not at the last.
\<close>

theorem some_check_succeeds_on_ciphertext:
  assumes "encrypt_character c s1 s2 = Some ch"
  shows "(is_lower ch \<longrightarrow>
            (\<exists>c1 c2 ok1 ok2. lower_candidates ch s1 s2 = Some (c1, c2) \<and>
               lower_checks ch s1 s2 c1 c2 = Some (ok1, ok2) \<and> (ok1 \<or> ok2) \<and>
               decrypt_character_with_ambiguity ch s1 s2 = Some (decide ch c1 c2 ok1 ok2))) \<and>
         (is_upper ch \<longrightarrow>
            (\<exists>c1 c2 ok1 ok2. upper_candidates ch s1 s2 = Some (c1, c2) \<and>
               upper_checks ch s1 s2 c1 c2 = Some (ok1, ok2) \<and> (ok1 \<or> ok2) \<and>
               decrypt_character_with_ambiguity ch s1 s2 = Some (decide ch c1 c2 ok1 ok2)))"
proof (intro conjI impI)
  assume low: "is_lower ch"
  from preimage_lower [OF assms low]
  have "(int ch - 97 - s1 * s2) mod 26 \<le> 12 \<or> 13 \<le> (int ch - 97 + (s1 + s2)) mod 26"
    by blast
  then show "\<exists>c1 c2 ok1 ok2. lower_candidates ch s1 s2 = Some (c1, c2) \<and>
               lower_checks ch s1 s2 c1 c2 = Some (ok1, ok2) \<and> (ok1 \<or> ok2) \<and>
               decrypt_character_with_ambiguity ch s1 s2 = Some (decide ch c1 c2 ok1 ok2)"
    by (simp add: lower_candidates_eq lower_checks_eq [OF low] decrypt_lower [OF low])
next
  assume up: "is_upper ch"
  from preimage_upper [OF assms up]
  have "(int ch - 65 + s1) mod 26 \<le> 12 \<or> 13 \<le> (int ch - 65 - s2 * s2) mod 26"
    by blast
  then show "\<exists>c1 c2 ok1 ok2. upper_candidates ch s1 s2 = Some (c1, c2) \<and>
               upper_checks ch s1 s2 c1 c2 = Some (ok1, ok2) \<and> (ok1 \<or> ok2) \<and>
               decrypt_character_with_ambiguity ch s1 s2 = Some (decide ch c1 c2 ok1 ok2)"
    by (simp add: upper_candidates_eq upper_checks_eq [OF up] decrypt_upper [OF up])
qed

theorem some_check_succeeds_on_ciphertext_witness:
  "encrypt_character 120 3 4 = Some 113 \<and> is_lower 113 \<and>
   (\<exists>c1 c2 ok1 ok2. lower_candidates 113 3 4 = Some (c1, c2) \<and>
      lower_checks 113 3 4 c1 c2 = Some (ok1, ok2) \<and> (ok1 \<or> ok2)) \<and>
   encrypt_character 72 3 4 = Some 69 \<and> is_upper 69 \<and>
   (\<exists>c1 c2 ok1 ok2. upper_candidates 69 3 4 = Some (c1, c2) \<and>
      upper_checks 69 3 4 c1 c2 = Some (ok1, ok2) \<and> (ok1 \<or> ok2))"
proof -
  have e1: "encrypt_character 120 3 4 = Some 113"
    by (simp add: enc_lower_second lower_second_def)
  have e2: "encrypt_character 72 3 4 = Some 69"
    by (simp add: enc_upper_first upper_first_def)
  have l: "is_lower 113" and u: "is_upper 69"
    by (simp_all add: is_lower_def is_upper_def)
  show ?thesis
    using some_check_succeeds_on_ciphertext [OF e1] some_check_succeeds_on_ciphertext [OF e2]
      e1 e2 l u
    by blast
qed

text \<open>
  C5. The claim: whenever the flag returned for an alphabetic input is set, two distinct
  characters, one from each half of the input's case, encrypt to that input. It fails on the
  flagged fallback: with the shifts 0 and 13 the letter n is returned flagged, and no
  character of either half encrypts to n.
\<close>

theorem flagged_without_originals_counterexample:
  "alphabetic 110 \<and> decrypt_character_with_ambiguity 110 0 13 = Some (110, True) \<and>
   \<not> (\<exists>a b. a \<noteq> b \<and> lower_first a \<and> lower_second b \<and>
          encrypt_character a 0 13 = Some 110 \<and> encrypt_character b 0 13 = Some 110)"
proof -
  have low: "is_lower 110" by (simp add: is_lower_def)
  have d: "decrypt_character_with_ambiguity 110 0 13 = Some (110, True)"
    by (simp add: decrypt_lower [OF low] decide_def)
  have "encrypt_character a 0 13 \<noteq> Some 110" for a
    using preimage_lower [of a 0 13 110] low by auto
  with d low show ?thesis by (simp add: alphabetic_def)
qed

text \<open>
  C5, as amended: when the alphabetic input is the encryption of some character and the
  flag returned is set, two distinct characters, one from each half of the input's case,
  encrypt to it.
\<close>

theorem flagged_ciphertext_has_two_originals:
  assumes "encrypt_character c s1 s2 = Some ch"
    and "alphabetic ch"
    and "decrypt_character_with_ambiguity ch s1 s2 = Some (d, True)"
  shows "\<exists>a b. a \<noteq> b \<and>
           (is_lower ch \<and> lower_first a \<and> lower_second b \<or>
            is_upper ch \<and> upper_first a \<and> upper_second b) \<and>
           encrypt_character a s1 s2 = Some ch \<and> encrypt_character b s1 s2 = Some ch"
proof (cases "is_lower ch")
  case True
  let ?x1 = "(int ch - 97 - s1 * s2) mod 26" and ?x2 = "(int ch - 97 + (s1 + s2)) mod 26"
  have one: "?x1 \<le> 12 \<or> 13 \<le> ?x2"
    using preimage_lower [OF assms(1) True] by blast
  have "decide ch (nat (?x1 + 97)) (nat (?x2 + 97)) (?x1 \<le> 12) (13 \<le> ?x2) = (d, True)"
    using assms(3) by (simp add: decrypt_lower [OF True])
  with one have both: "?x1 \<le> 12" "13 \<le> ?x2"
    by (auto simp add: decide_def split: if_splits)
  have a: "lower_first (nat (?x1 + 97))" "encrypt_character (nat (?x1 + 97)) s1 s2 = Some ch"
    using both True by (simp_all add: lower_first_iff reenc_lower_first back_lower_first lower_as_idx)
  have b: "lower_second (nat (?x2 + 97))" "encrypt_character (nat (?x2 + 97)) s1 s2 = Some ch"
    using both True by (simp_all add: lower_second_iff reenc_lower_second back_lower_second lower_as_idx)
  have "nat (?x1 + 97) \<noteq> nat (?x2 + 97)"
    using a(1) b(1) by (auto simp add: lower_first_def lower_second_def)
  with a b True show ?thesis by blast
next
  case False
  with assms(2) have up: "is_upper ch" by (simp add: alphabetic_def)
  let ?x1 = "(int ch - 65 + s1) mod 26" and ?x2 = "(int ch - 65 - s2 * s2) mod 26"
  have one: "?x1 \<le> 12 \<or> 13 \<le> ?x2"
    using preimage_upper [OF assms(1) up] by blast
  have "decide ch (nat (?x1 + 65)) (nat (?x2 + 65)) (?x1 \<le> 12) (13 \<le> ?x2) = (d, True)"
    using assms(3) by (simp add: decrypt_upper [OF up])
  with one have both: "?x1 \<le> 12" "13 \<le> ?x2"
    by (auto simp add: decide_def split: if_splits)
  have a: "upper_first (nat (?x1 + 65))" "encrypt_character (nat (?x1 + 65)) s1 s2 = Some ch"
    using both up by (simp_all add: upper_first_iff reenc_upper_first back_upper_first upper_as_idx)
  have b: "upper_second (nat (?x2 + 65))" "encrypt_character (nat (?x2 + 65)) s1 s2 = Some ch"
    using both up by (simp_all add: upper_second_iff reenc_upper_second back_upper_second upper_as_idx)
  have "nat (?x1 + 65) \<noteq> nat (?x2 + 65)"
    using a(1) b(1) by (auto simp add: upper_first_def upper_second_def)
  with a b up show ?thesis by blast
qed

theorem flagged_ciphertext_has_two_originals_witness:
  "encrypt_character 120 3 4 = Some 113 \<and> alphabetic 113 \<and>
   decrypt_character_with_ambiguity 113 3 4 = Some (101, True) \<and>
   (\<exists>a b. a \<noteq> b \<and>
      (is_lower 113 \<and> lower_first a \<and> lower_second b \<or>
       is_upper 113 \<and> upper_first a \<and> upper_second b) \<and>
      encrypt_character a 3 4 = Some 113 \<and> encrypt_character b 3 4 = Some 113)"
proof -
  have low: "is_lower 113" by (simp add: is_lower_def)
  have e: "encrypt_character 120 3 4 = Some 113"
    by (simp add: enc_lower_second lower_second_def)
  have al: "alphabetic 113" using low by (simp add: alphabetic_def)
  have d: "decrypt_character_with_ambiguity 113 3 4 = Some (101, True)"
    by (simp add: decrypt_lower [OF low] decide_def)
  show ?thesis
    using flagged_ciphertext_has_two_originals [OF e al d] e al d by blast
qed

text \<open>
  C8. The shifts 0 and 0 change nothing: every character encrypts to itself, and every
  character decodes to itself with the flag unset.
\<close>

theorem zero_shifts_are_a_no_op:
  "encrypt_character c 0 0 = Some c \<and> decrypt_character_with_ambiguity ch 0 0 = Some (ch, False)"
proof
  show "encrypt_character c 0 0 = Some c"
  proof (cases "alphabetic c")
    case False
    then show ?thesis by (simp add: enc_other)
  next
    case True
    then consider "lower_first c" | "lower_second c" | "upper_first c" | "upper_second c"
      using classes by blast
    then show ?thesis
    proof cases
      case 1
      then have "is_lower c" by (simp add: lower_first_def is_lower_def)
      with 1 show ?thesis by (simp add: enc_lower_first lower_as_idx)
    next
      case 2
      then have "is_lower c" by (simp add: lower_second_def is_lower_def)
      with 2 show ?thesis by (simp add: enc_lower_second lower_as_idx)
    next
      case 3
      then have "is_upper c" by (simp add: upper_first_def is_upper_def)
      with 3 show ?thesis by (simp add: enc_upper_first upper_as_idx)
    next
      case 4
      then have "is_upper c" by (simp add: upper_second_def is_upper_def)
      with 4 show ?thesis by (simp add: enc_upper_second upper_as_idx)
    qed
  qed
next
  show "decrypt_character_with_ambiguity ch 0 0 = Some (ch, False)"
  proof (cases "is_lower ch")
    case True
    then show ?thesis
      by (auto simp add: decrypt_lower decide_def lower_as_idx)
  next
    case False
    show ?thesis
    proof (cases "is_upper ch")
      case True
      then show ?thesis
        by (auto simp add: decrypt_upper decide_def upper_as_idx)
    next
      case no: False
      with False show ?thesis by (simp add: decrypt_other alphabetic_def)
    qed
  qed
qed

text \<open>
  C4. Every lowercase letter is recovered exactly and unflagged by decoding its encryption
  if and only if \<open>(s1 * s2 + s1 + s2) mod 26 = 0\<close>; every uppercase letter is if and only if
  \<open>(s1 + s2 * s2) mod 26 = 0\<close>.
\<close>

theorem roundtrip_conditions:
  "((\<forall>c. is_lower c \<longrightarrow> roundtrip c s1 s2 = Some (c, False)) \<longleftrightarrow>
      (s1 * s2 + s1 + s2) mod 26 = 0) \<and>
   ((\<forall>c. is_upper c \<longrightarrow> roundtrip c s1 s2 = Some (c, False)) \<longleftrightarrow>
      (s1 + s2 * s2) mod 26 = 0)"
  using lower_roundtrip_iff [of s1 s2] upper_roundtrip_iff [of s1 s2] by blast

theorem roundtrip_conditions_witness:
  "(2 * 8 + 2 + 8) mod 26 = (0::int) \<and> is_lower 122 \<and> roundtrip 122 2 8 = Some (122, False) \<and>
   (25 + 1 * 1) mod 26 = (0::int) \<and> is_upper 90 \<and> roundtrip 90 25 1 = Some (90, False) \<and>
   (3 * 4 + 3 + 4) mod 26 \<noteq> (0::int) \<and>
   \<not> (\<forall>c. is_lower c \<longrightarrow> roundtrip c 3 4 = Some (c, False)) \<and>
   (3 + 4 * 4) mod 26 \<noteq> (0::int) \<and>
   \<not> (\<forall>c. is_upper c \<longrightarrow> roundtrip c 3 4 = Some (c, False))"
proof -
  have l: "is_lower 122" and u: "is_upper 90"
    by (simp_all add: is_lower_def is_upper_def)
  have "roundtrip 122 2 8 = Some (122, False)"
    using roundtrip_conditions [of 2 8] l by simp
  moreover have "roundtrip 90 25 1 = Some (90, False)"
    using roundtrip_conditions [of 25 1] u by simp
  moreover have "\<not> (\<forall>c. is_lower c \<longrightarrow> roundtrip c 3 4 = Some (c, False))"
    using roundtrip_conditions [of 3 4] by simp
  moreover have "\<not> (\<forall>c. is_upper c \<longrightarrow> roundtrip c 3 4 = Some (c, False))"
    using roundtrip_conditions [of 3 4] by simp
  ultimately show ?thesis using l u by simp
qed

text \<open>
  C3. Absence of collision gives exact recovery: when no character of the other half of its
  case encrypts to the same character as the letter \<open>c\<close> does, decoding the encryption of
  \<open>c\<close> returns \<open>c\<close> unflagged. This holds for \<open>c\<close> in a..m, in n..z, in A..M and in N..Z.
\<close>

theorem recovery_without_collision:
  "(lower_first c \<and> (\<forall>d. lower_second d \<longrightarrow> encrypt_character d s1 s2 \<noteq> encrypt_character c s1 s2)
      \<longrightarrow> roundtrip c s1 s2 = Some (c, False)) \<and>
   (lower_second c \<and> (\<forall>d. lower_first d \<longrightarrow> encrypt_character d s1 s2 \<noteq> encrypt_character c s1 s2)
      \<longrightarrow> roundtrip c s1 s2 = Some (c, False)) \<and>
   (upper_first c \<and> (\<forall>d. upper_second d \<longrightarrow> encrypt_character d s1 s2 \<noteq> encrypt_character c s1 s2)
      \<longrightarrow> roundtrip c s1 s2 = Some (c, False)) \<and>
   (upper_second c \<and> (\<forall>d. upper_first d \<longrightarrow> encrypt_character d s1 s2 \<noteq> encrypt_character c s1 s2)
      \<longrightarrow> roundtrip c s1 s2 = Some (c, False))"
proof (intro conjI impI; elim conjE)
  let ?K = "s1 * s2 + s1 + s2"
  assume c: "lower_first c"
    and free: "\<forall>d. lower_second d \<longrightarrow> encrypt_character d s1 s2 \<noteq> encrypt_character c s1 s2"
  have "\<not> 13 \<le> (int c - 97 + ?K) mod 26"
  proof
    assume h: "13 \<le> (int c - 97 + ?K) mod 26"
    let ?d = "nat ((int c - 97 + ?K) mod 26 + 97)"
    have "lower_second ?d" using h by (simp add: lower_second_iff)
    moreover have "encrypt_character ?d s1 s2 = encrypt_character c s1 s2"
      using h by (simp add: reenc_lower_second enc_lower_first [OF c]) (simp add: algebra_simps)
    ultimately show False using free by blast
  qed
  then show "roundtrip c s1 s2 = Some (c, False)"
    by (simp add: roundtrip_lower_first [OF c])
next
  let ?K = "s1 * s2 + s1 + s2"
  assume c: "lower_second c"
    and free: "\<forall>d. lower_first d \<longrightarrow> encrypt_character d s1 s2 \<noteq> encrypt_character c s1 s2"
  have "\<not> (int c - 97 - ?K) mod 26 \<le> 12"
  proof
    assume h: "(int c - 97 - ?K) mod 26 \<le> 12"
    let ?d = "nat ((int c - 97 - ?K) mod 26 + 97)"
    have "lower_first ?d" using h by (simp add: lower_first_iff)
    moreover have "encrypt_character ?d s1 s2 = encrypt_character c s1 s2"
      using h by (simp add: reenc_lower_first enc_lower_second [OF c]) (simp add: algebra_simps)
    ultimately show False using free by blast
  qed
  then show "roundtrip c s1 s2 = Some (c, False)"
    by (simp add: roundtrip_lower_second [OF c])
next
  let ?K = "s1 + s2 * s2"
  assume c: "upper_first c"
    and free: "\<forall>d. upper_second d \<longrightarrow> encrypt_character d s1 s2 \<noteq> encrypt_character c s1 s2"
  have "\<not> 13 \<le> (int c - 65 - ?K) mod 26"
  proof
    assume h: "13 \<le> (int c - 65 - ?K) mod 26"
    let ?d = "nat ((int c - 65 - ?K) mod 26 + 65)"
    have "upper_second ?d" using h by (simp add: upper_second_iff)
    moreover have "encrypt_character ?d s1 s2 = encrypt_character c s1 s2"
      using h by (simp add: reenc_upper_second enc_upper_first [OF c]) (simp add: algebra_simps)
    ultimately show False using free by blast
  qed
  then show "roundtrip c s1 s2 = Some (c, False)"
    by (simp add: roundtrip_upper_first [OF c])
next
  let ?K = "s1 + s2 * s2"
  assume c: "upper_second c"
    and free: "\<forall>d. upper_first d \<longrightarrow> encrypt_character d s1 s2 \<noteq> encrypt_character c s1 s2"
  have "\<not> (int c - 65 + ?K) mod 26 \<le> 12"
  proof
    assume h: "(int c - 65 + ?K) mod 26 \<le> 12"
    let ?d = "nat ((int c - 65 + ?K) mod 26 + 65)"
    have "upper_first ?d" using h by (simp add: upper_first_iff)
    moreover have "encrypt_character ?d s1 s2 = encrypt_character c s1 s2"
      using h by (simp add: reenc_upper_first enc_upper_second [OF c]) (simp add: algebra_simps)
    ultimately show False using free by blast
  qed
  then show "roundtrip c s1 s2 = Some (c, False)"
    by (simp add: roundtrip_upper_second [OF c])
qed

theorem recovery_without_collision_witness:
  "lower_first 109 \<and> roundtrip 109 3 4 = Some (109, False) \<and>
   lower_second 110 \<and> roundtrip 110 3 4 = Some (110, False) \<and>
   upper_first 65 \<and> roundtrip 65 3 4 = Some (65, False) \<and>
   upper_second 90 \<and> roundtrip 90 3 4 = Some (90, False)"
proof -
  have h: "lower_first 109" "lower_second 110" "upper_first 65" "upper_second 90"
    by (simp_all add: lower_first_def lower_second_def upper_first_def upper_second_def)
  have e: "encrypt_character 109 3 4 = Some 121" "encrypt_character 110 3 4 = Some 103"
    "encrypt_character 65 3 4 = Some 88" "encrypt_character 90 3 4 = Some 80"
    using h by (simp_all add: enc_lower_first enc_lower_second enc_upper_first enc_upper_second)
  have l: "is_lower 121" "is_lower 103" and u: "is_upper 88" "is_upper 80"
    by (simp_all add: is_lower_def is_upper_def)
  have f1: "\<forall>d. lower_second d \<longrightarrow> encrypt_character d 3 4 \<noteq> encrypt_character 109 3 4"
  proof (intro allI impI notI)
    fix d assume d: "lower_second d" and "encrypt_character d 3 4 = encrypt_character 109 3 4"
    then have "encrypt_character d 3 4 = Some 121" by (simp only: e)
    from preimage_lower [OF this l(1)] d halves_disjoint(1) [of d] show False by simp
  qed
  have f2: "\<forall>d. lower_first d \<longrightarrow> encrypt_character d 3 4 \<noteq> encrypt_character 110 3 4"
  proof (intro allI impI notI)
    fix d assume d: "lower_first d" and "encrypt_character d 3 4 = encrypt_character 110 3 4"
    then have "encrypt_character d 3 4 = Some 103" by (simp only: e)
    from preimage_lower [OF this l(2)] d halves_disjoint(1) [of d] show False by simp
  qed
  have f3: "\<forall>d. upper_second d \<longrightarrow> encrypt_character d 3 4 \<noteq> encrypt_character 65 3 4"
  proof (intro allI impI notI)
    fix d assume d: "upper_second d" and "encrypt_character d 3 4 = encrypt_character 65 3 4"
    then have "encrypt_character d 3 4 = Some 88" by (simp only: e)
    from preimage_upper [OF this u(1)] d halves_disjoint(2) [of d] show False by simp
  qed
  have f4: "\<forall>d. upper_first d \<longrightarrow> encrypt_character d 3 4 \<noteq> encrypt_character 90 3 4"
  proof (intro allI impI notI)
    fix d assume d: "upper_first d" and "encrypt_character d 3 4 = encrypt_character 90 3 4"
    then have "encrypt_character d 3 4 = Some 80" by (simp only: e)
    from preimage_upper [OF this u(2)] d halves_disjoint(2) [of d] show False by simp
  qed
  have r1: "roundtrip 109 3 4 = Some (109, False)"
    using recovery_without_collision [of 109 3 4] h(1) f1 by (elim conjE) (rule mp, assumption, simp)
  have r2: "roundtrip 110 3 4 = Some (110, False)"
    using recovery_without_collision [of 110 3 4] h(2) f2 by (elim conjE) (rule mp, assumption, simp)
  have r3: "roundtrip 65 3 4 = Some (65, False)"
    using recovery_without_collision [of 65 3 4] h(3) f3 by (elim conjE) (rule mp, assumption, simp)
  have r4: "roundtrip 90 3 4 = Some (90, False)"
    using recovery_without_collision [of 90 3 4] h(4) f4 by (elim conjE) (rule mp, assumption, simp)
  from h r1 r2 r3 r4 show ?thesis by simp
qed

text \<open>
  C7. No shift pair other than the no-op makes the round trip exact for both cases: when
  \<open>(s1 * s2 + s1 + s2) mod 26 = 0\<close> and \<open>(s1 + s2 * s2) mod 26 = 0\<close> both hold, or, what is
  the same, when every lowercase and every uppercase letter is recovered exactly and
  unflagged, both shifts are multiples of 26 and encryption changes no character.
\<close>

theorem both_cases_force_no_op:
  "((s1 * s2 + s1 + s2) mod 26 = 0 \<and> (s1 + s2 * s2) mod 26 = 0 \<longrightarrow>
      s1 mod 26 = 0 \<and> s2 mod 26 = 0 \<and> (\<forall>c. encrypt_character c s1 s2 = Some c)) \<and>
   ((\<forall>c. alphabetic c \<longrightarrow> roundtrip c s1 s2 = Some (c, False)) \<longrightarrow>
      s1 mod 26 = 0 \<and> s2 mod 26 = 0 \<and> (\<forall>c. encrypt_character c s1 s2 = Some c))"
proof (rule conjI; rule impI)
  assume k: "(s1 * s2 + s1 + s2) mod 26 = 0 \<and> (s1 + s2 * s2) mod 26 = 0"
  then have k1: "(s1 * s2 + s1 + s2) mod 26 = 0" and k2: "(s1 + s2 * s2) mod 26 = 0"
    by simp_all
  have z: "s1 mod 26 = 0 \<and> s2 mod 26 = 0"
    using k1 k2 by (rule both_conditions)
  then show "s1 mod 26 = 0 \<and> s2 mod 26 = 0 \<and> (\<forall>c. encrypt_character c s1 s2 = Some c)"
    by (simp add: encrypt_multiples_of_26)
next
  assume all: "\<forall>c. alphabetic c \<longrightarrow> roundtrip c s1 s2 = Some (c, False)"
  then have "\<forall>c. is_lower c \<longrightarrow> roundtrip c s1 s2 = Some (c, False)"
    and "\<forall>c. is_upper c \<longrightarrow> roundtrip c s1 s2 = Some (c, False)"
    by (simp_all add: alphabetic_def)
  then have "(s1 * s2 + s1 + s2) mod 26 = 0" and "(s1 + s2 * s2) mod 26 = 0"
    using lower_roundtrip_iff [of s1 s2] upper_roundtrip_iff [of s1 s2] by simp_all
  then have z: "s1 mod 26 = 0 \<and> s2 mod 26 = 0"
    by (rule both_conditions)
  then show "s1 mod 26 = 0 \<and> s2 mod 26 = 0 \<and> (\<forall>c. encrypt_character c s1 s2 = Some c)"
    by (simp add: encrypt_multiples_of_26)
qed

theorem both_cases_force_no_op_witness:
  "(26 * 52 + 26 + 52) mod 26 = (0::int) \<and> (26 + 52 * 52) mod 26 = (0::int) \<and>
   (26::int) mod 26 = 0 \<and> (52::int) mod 26 = 0 \<and>
   encrypt_character 101 26 52 = Some 101 \<and> encrypt_character 90 26 52 = Some 90"
proof -
  have "(26 * 52 + 26 + 52) mod 26 = (0::int) \<and> (26 + 52 * 52) mod 26 = (0::int)"
    by simp
  then show ?thesis
    using both_cases_force_no_op [of 26 52] by simp
qed

text \<open>
  C9. A character outside a..z and A..Z encrypts to itself and decodes to itself unflagged.
  So \<^verbatim>\<open>decrypt_file\<close> always returns, and the positions it returns are 0-based indices
  of the encrypted text, in increasing order, each holding a letter of a..z or A..Z (and an
  alphabetic character for \<^verbatim>\<open>str.isalpha\<close>, which the loop tests).
\<close>

theorem non_letters_pass_and_positions_are_letters:
  "(\<not> alphabetic c \<longrightarrow>
      encrypt_character c s1 s2 = Some c \<and>
      decrypt_character_with_ambiguity c s1 s2 = Some (c, False)) \<and>
   (\<exists>out pos. decrypt_file isalpha s1 s2 cipher = Some (out, pos) \<and>
      sorted_wrt (<) pos \<and>
      (\<forall>j\<in>set pos. j < length cipher \<and> alphabetic (cipher ! j) \<and> isalpha (cipher ! j)))"
proof (rule conjI)
  show "\<not> alphabetic c \<longrightarrow>
      encrypt_character c s1 s2 = Some c \<and>
      decrypt_character_with_ambiguity c s1 s2 = Some (c, False)"
    by (simp add: enc_other decrypt_other)
next
  from decrypt_loop_positions [of isalpha s1 s2 0 cipher "[]" "[]"]
  show "\<exists>out pos. decrypt_file isalpha s1 s2 cipher = Some (out, pos) \<and>
      sorted_wrt (<) pos \<and>
      (\<forall>j\<in>set pos. j < length cipher \<and> alphabetic (cipher ! j) \<and> isalpha (cipher ! j))"
    by (simp add: decrypt_file_def)
qed


theorem non_letters_pass_and_positions_are_letters_witness:
  "\<not> alphabetic 44 \<and> encrypt_character 44 3 4 = Some 44 \<and>
   decrypt_character_with_ambiguity 44 3 4 = Some (44, False) \<and>
   decrypt_file alphabetic 3 4 [113, 44, 97, 120] = Some ([101, 44, 97, 108], [0, 2]) \<and>
   (\<exists>out pos. decrypt_file alphabetic 3 4 [113, 44, 97, 120] = Some (out, pos) \<and>
      sorted_wrt (<) pos \<and> list_all (\<lambda>j. j < 4 \<and> alphabetic ([113, 44, 97, 120] ! j)) pos)"
proof -
  have n: "\<not> alphabetic 44"
    by (simp add: alphabetic_def is_lower_def is_upper_def)
  have l: "is_lower 113" "is_lower 97" "is_lower 120"
    by (simp_all add: is_lower_def)
  have al: "alphabetic 113" "alphabetic 97" "alphabetic 120"
    using l by (simp_all add: alphabetic_def)
  have d: "decrypt_character_with_ambiguity 113 3 4 = Some (101, True)"
    "decrypt_character_with_ambiguity 97 3 4 = Some (97, True)"
    "decrypt_character_with_ambiguity 120 3 4 = Some (108, False)"
    by (simp_all add: decrypt_lower [OF l(1)] decrypt_lower [OF l(2)] decrypt_lower [OF l(3)]
        decide_def)
  have d44: "decrypt_character_with_ambiguity 44 3 4 = Some (44, False)"
    using n by (simp add: decrypt_other)
  have f: "decrypt_file alphabetic 3 4 [113, 44, 97, 120] = Some ([101, 44, 97, 108], [0, 2])"
    by (simp add: decrypt_file_def d d44 al n)
  from non_letters_pass_and_positions_are_letters [of 44 3 4 alphabetic "[113, 44, 97, 120]"] n
  have "encrypt_character 44 3 4 = Some 44 \<and>
        decrypt_character_with_ambiguity 44 3 4 = Some (44, False)"
    and "\<exists>out pos. decrypt_file alphabetic 3 4 [113, 44, 97, 120] = Some (out, pos) \<and>
      sorted_wrt (<) pos \<and>
      (\<forall>j\<in>set pos. j < length [113, 44, 97, 120::nat] \<and>
         alphabetic ([113, 44, 97, 120] ! j) \<and> alphabetic ([113, 44, 97, 120] ! j))"
    by blast+
  then show ?thesis
    using n f by (simp add: list_all_iff)
qed

end
